theory Spec2Isabelle
  imports Main "HOL-Library.Word" "HOL-Library.Sublist"
begin

section \<open>JavaScript strings\<close>

text \<open>
  A JavaScript string is a sequence of UTF-16 code units. \<open>input.length\<close> counts code
  units, \<open>input[i]\<close> is the string holding the single code unit at index \<open>i\<close>, and
  \<open>input.slice(i)\<close> drops the first \<open>i\<close> code units. Strings are compared by \<open>===\<close>,
  \<open>Array.prototype.includes\<close> and \<open>Set.prototype.has\<close> code unit by code unit, which is
  equality of lists.
\<close>

type_synonym char16 = "16 word"
type_synonym jsstring = "char16 list"

definition lit :: "string \<Rightarrow> jsstring" where
  \<comment> \<open>An ASCII string literal of the source as code units.\<close>
  "lit s = map (\<lambda>c. of_nat (of_char c)) s"

definition isLeadSurrogate :: "char16 \<Rightarrow> bool" where
  "isLeadSurrogate c \<longleftrightarrow> 0xD800 \<le> c \<and> c \<le> 0xDBFF"

definition isTrailSurrogate :: "char16 \<Rightarrow> bool" where
  "isTrailSurrogate c \<longleftrightarrow> 0xDC00 \<le> c \<and> c \<le> 0xDFFF"

fun stringIterator :: "jsstring \<Rightarrow> jsstring list" where
  \<comment> \<open>\<open>for (const symbol of input)\<close>: the string iterator yields code points, so a lead
      surrogate followed by a trail surrogate comes out as one string of two code units.\<close>
  "stringIterator [] = []"
| "stringIterator [c] = [[c]]"
| "stringIterator (c # d # cs) =
     (if isLeadSurrogate c \<and> isTrailSurrogate d then [c, d] # stringIterator cs
      else [c] # stringIterator (d # cs))"

fun join :: "jsstring \<Rightarrow> jsstring list \<Rightarrow> jsstring" where
  \<comment> \<open>\<open>xs.join(sep)\<close> on an array of strings.\<close>
  "join sep [] = []"
| "join sep [x] = x"
| "join sep (x # y # ys) = x @ sep @ join sep (y # ys)"

definition quoted :: "jsstring \<Rightarrow> jsstring" where
  \<comment> \<open>\<open>'${s}'\<close> inside a template literal: the string between two apostrophes.\<close>
  "quoted s = [0x27] @ s @ [0x27]"

definition digitChar :: "nat \<Rightarrow> char16" where
  "digitChar d = of_nat (48 + d)"

function numberToString :: "nat \<Rightarrow> jsstring" where
  \<comment> \<open>\<open>`${index}`\<close> for a non-negative integer below \<open>10^21\<close>: its decimal digits.\<close>
  "numberToString n =
     (if n < 10 then [digitChar n] else numberToString (n div 10) @ [digitChar (n mod 10)])"
  by pat_completeness auto
termination
  by (relation "measure (\<lambda>n. n)") auto

declare numberToString.simps [simp del]


section \<open>Data model (src/types/dfa.ts)\<close>

text \<open>
  The interfaces of the source as records. A field called \<open>id\<close> in the source carries
  the name of its interface here, and the fields of \<open>SimulationStep\<close> that share a name
  with a field of another interface carry the suffix \<open>_step\<close>. The display coordinates of
  a state are JavaScript numbers that the engine never reads; they are kept as integers.
  The optional \<open>createdAt\<close> and \<open>updatedAt\<close> dates of a DFA, which the engine never reads
  either, are left out.
\<close>

record DFAState =
  id_state :: jsstring
  label :: jsstring
  isInitial :: bool
  isAccepting :: bool
  x_pos :: int
  y_pos :: int

record DFATransition =
  id_trans :: jsstring
  fromStateId :: jsstring
  toStateId :: jsstring
  symbol :: jsstring

record DFA =
  id_dfa :: jsstring
  name :: jsstring
  description :: "jsstring option"
  alphabet :: "jsstring list"
  states :: "DFAState list"
  transitions :: "DFATransition list"
  initialStateId :: jsstring
  acceptingStateIds :: "jsstring list"

record ProcessingResult =
  accepted :: bool
  inputString :: jsstring
  path :: "jsstring list"
  currentState :: jsstring
  remainingInput :: jsstring
  error :: "jsstring option"

record SimulationStep =
  stateId :: jsstring
  symbol_step :: "jsstring option"
  remainingInput_step :: jsstring
  stepNumber :: nat

record ValidationResult =
  isValid :: bool
  errors :: "jsstring list"
  warnings :: "jsstring list"


section \<open>The executor (class DFAEngine in src/utils/dfa-engine.ts)\<close>

text \<open>
  The engine holds the DFA it was constructed with and never changes it, so every method
  takes the DFA as its first argument.
\<close>

definition getNextState :: "DFA \<Rightarrow> jsstring \<Rightarrow> jsstring \<Rightarrow> jsstring option" where
  \<comment> \<open>\<open>transitions.find(...)\<close> returns the first match; \<open>null\<close> is \<open>None\<close>.\<close>
  "getNextState dfa currentStateId symb =
     (case find (\<lambda>t. fromStateId t = currentStateId \<and> symbol t = symb) (transitions dfa) of
        Some transition \<Rightarrow> Some (toStateId transition)
      | None \<Rightarrow> None)"

fun getInvalidSymbols_loop :: "jsstring set \<Rightarrow> jsstring list \<Rightarrow> jsstring list \<Rightarrow> jsstring list" where
  \<comment> \<open>The \<open>for ... of\<close> loop of \<open>getInvalidSymbols\<close> over the symbols still to come, with
      the array \<open>invalidSymbols\<close> built so far.\<close>
  "getInvalidSymbols_loop alphabetSet invalidSymbols [] = invalidSymbols"
| "getInvalidSymbols_loop alphabetSet invalidSymbols (symb # symbs) =
     getInvalidSymbols_loop alphabetSet
       (if symb \<notin> alphabetSet \<and> symb \<notin> set invalidSymbols then invalidSymbols @ [symb]
        else invalidSymbols)
       symbs"

definition getInvalidSymbols :: "DFA \<Rightarrow> jsstring \<Rightarrow> jsstring list" where
  "getInvalidSymbols dfa input =
     (let alphabetSet = set (alphabet dfa) in
      getInvalidSymbols_loop alphabetSet [] (stringIterator input))"

definition isValidString :: "DFA \<Rightarrow> jsstring \<Rightarrow> bool" where
  "isValidString dfa input \<longleftrightarrow> length (getInvalidSymbols dfa input) = 0"

definition invalidSymbolsError :: "jsstring list \<Rightarrow> jsstring" where
  "invalidSymbolsError invalidSymbols =
     lit ''Invalid symbols in input: '' @ join (lit '', '') invalidSymbols"

definition noTransitionError :: "jsstring \<Rightarrow> jsstring \<Rightarrow> jsstring" where
  "noTransitionError currentStateId symb =
     lit ''No transition found from state '' @ quoted currentStateId
       @ lit '' with symbol '' @ quoted symb"

definition rejectedError :: "jsstring \<Rightarrow> jsstring" where
  "rejectedError currentStateId =
     lit ''String rejected: ended in non-accepting state '' @ quoted currentStateId"

function processString_loop ::
  "DFA \<Rightarrow> jsstring \<Rightarrow> nat \<Rightarrow> jsstring \<Rightarrow> jsstring list \<Rightarrow> ProcessingResult" where
  \<comment> \<open>The \<open>for\<close> loop of \<open>processString\<close> from index \<open>i\<close> on, followed by the code after
      the loop; \<open>pth\<close> is the array \<open>path\<close>.\<close>
  "processString_loop dfa input i currentStateId pth =
     (if i < length input then
        (let symb = [input ! i] in
         case getNextState dfa currentStateId symb of
           None \<Rightarrow>
             \<lparr>accepted = False, inputString = input, path = pth,
              currentState = currentStateId, remainingInput = drop i input,
              error = Some (noTransitionError currentStateId symb)\<rparr>
         | Some nextStateId \<Rightarrow>
             processString_loop dfa input (i + 1) nextStateId (pth @ [nextStateId]))
      else
        (let acc = currentStateId \<in> set (acceptingStateIds dfa) in
         \<lparr>accepted = acc, inputString = input, path = pth,
          currentState = currentStateId, remainingInput = [],
          error = (if acc then None else Some (rejectedError currentStateId))\<rparr>))"
  by pat_completeness auto
termination
  by (relation "measure (\<lambda>(dfa, input, i, currentStateId, pth). length input - i)") auto

declare processString_loop.simps [simp del]

definition processString :: "DFA \<Rightarrow> jsstring \<Rightarrow> ProcessingResult" where
  "processString dfa input =
     (let invalidSymbols = getInvalidSymbols dfa input in
      if length invalidSymbols > 0 then
        \<lparr>accepted = False, inputString = input, path = [],
         currentState = initialStateId dfa, remainingInput = input,
         error = Some (invalidSymbolsError invalidSymbols)\<rparr>
      else processString_loop dfa input 0 (initialStateId dfa) [initialStateId dfa])"

function getSimulationSteps_loop ::
  "DFA \<Rightarrow> jsstring \<Rightarrow> nat \<Rightarrow> jsstring \<Rightarrow> SimulationStep list \<Rightarrow> SimulationStep list" where
  \<comment> \<open>The \<open>for\<close> loop of \<open>getSimulationSteps\<close> from index \<open>i\<close> on; \<open>break\<close> returns the
      steps pushed so far.\<close>
  "getSimulationSteps_loop dfa input i currentStateId steps =
     (if i < length input then
        (let symb = [input ! i] in
         case getNextState dfa currentStateId symb of
           None \<Rightarrow> steps
         | Some nextStateId \<Rightarrow>
             getSimulationSteps_loop dfa input (i + 1) nextStateId
               (steps @ [\<lparr>stateId = nextStateId, symbol_step = Some symb,
                          remainingInput_step = drop (i + 1) input, stepNumber = i + 1\<rparr>]))
      else steps)"
  by pat_completeness auto
termination
  by (relation "measure (\<lambda>(dfa, input, i, currentStateId, steps). length input - i)") auto

declare getSimulationSteps_loop.simps [simp del]

definition getSimulationSteps :: "DFA \<Rightarrow> jsstring \<Rightarrow> SimulationStep list" where
  "getSimulationSteps dfa input =
     getSimulationSteps_loop dfa input 0 (initialStateId dfa)
       [\<lparr>stateId = initialStateId dfa, symbol_step = None,
         remainingInput_step = input, stepNumber = 0\<rparr>]"


section \<open>The validator (DFAEngine.validateDFA)\<close>

text \<open>
  Each loop of \<open>validateDFA\<close> is a function that takes the array \<open>errors\<close> (or
  \<open>warnings\<close>) as it stands when the loop starts and returns it as it stands when the
  loop ends. \<open>push\<close> appends at the end.
\<close>

definition initialNotFoundError :: "jsstring \<Rightarrow> jsstring" where
  "initialNotFoundError sid = lit ''Initial state '' @ quoted sid @ lit '' not found in states''"

definition acceptingNotFoundError :: "jsstring \<Rightarrow> jsstring" where
  "acceptingNotFoundError sid =
     lit ''Accepting state '' @ quoted sid @ lit '' not found in states''"

definition duplicateStateError :: "jsstring \<Rightarrow> jsstring" where
  "duplicateStateError sid = lit ''Duplicate state ID: '' @ quoted sid"

definition badFromStateError :: "DFATransition \<Rightarrow> jsstring" where
  "badFromStateError t =
     lit ''Transition '' @ quoted (id_trans t) @ lit '' references non-existent from state ''
       @ quoted (fromStateId t)"

definition badToStateError :: "DFATransition \<Rightarrow> jsstring" where
  "badToStateError t =
     lit ''Transition '' @ quoted (id_trans t) @ lit '' references non-existent to state ''
       @ quoted (toStateId t)"

definition badSymbolError :: "DFATransition \<Rightarrow> jsstring" where
  "badSymbolError t =
     lit ''Transition '' @ quoted (id_trans t) @ lit '' uses symbol '' @ quoted (symbol t)
       @ lit '' not in alphabet''"

definition nonDeterministicError :: "DFATransition \<Rightarrow> jsstring" where
  "nonDeterministicError t =
     lit ''Non-deterministic: multiple transitions from state '' @ quoted (fromStateId t)
       @ lit '' with symbol '' @ quoted (symbol t)"

definition incompleteWarning :: "DFAState \<Rightarrow> jsstring \<Rightarrow> jsstring" where
  "incompleteWarning st symb =
     lit ''Incomplete: state '' @ quoted (id_state st) @ lit '' has no transition for symbol ''
       @ quoted symb"

fun acceptingCheck_loop :: "DFA \<Rightarrow> jsstring list \<Rightarrow> jsstring list \<Rightarrow> jsstring list" where
  "acceptingCheck_loop dfa errs [] = errs"
| "acceptingCheck_loop dfa errs (acceptingId # rest) =
     acceptingCheck_loop dfa
       (if find (\<lambda>s. id_state s = acceptingId) (states dfa) = None
        then errs @ [acceptingNotFoundError acceptingId] else errs)
       rest"

fun duplicateCheck_loop :: "jsstring set \<Rightarrow> jsstring list \<Rightarrow> DFAState list \<Rightarrow> jsstring list" where
  "duplicateCheck_loop stateIds errs [] = errs"
| "duplicateCheck_loop stateIds errs (st # rest) =
     duplicateCheck_loop (insert (id_state st) stateIds)
       (if id_state st \<in> stateIds then errs @ [duplicateStateError (id_state st)] else errs)
       rest"

fun referenceCheck_loop :: "DFA \<Rightarrow> jsstring list \<Rightarrow> DFATransition list \<Rightarrow> jsstring list" where
  "referenceCheck_loop dfa errs [] = errs"
| "referenceCheck_loop dfa errs (t # rest) =
     (let errs1 = (if find (\<lambda>s. id_state s = fromStateId t) (states dfa) = None
                   then errs @ [badFromStateError t] else errs);
          errs2 = (if find (\<lambda>s. id_state s = toStateId t) (states dfa) = None
                   then errs1 @ [badToStateError t] else errs1);
          errs3 = (if symbol t \<notin> set (alphabet dfa)
                   then errs2 @ [badSymbolError t] else errs2)
      in referenceCheck_loop dfa errs3 rest)"

definition transitionKey :: "DFATransition \<Rightarrow> jsstring" where
  \<comment> \<open>\<open>`${transition.fromStateId}-${transition.symbol}`\<close>\<close>
  "transitionKey t = fromStateId t @ lit ''-'' @ symbol t"

fun determinismCheck_loop ::
  "(jsstring \<rightharpoonup> jsstring) \<Rightarrow> jsstring list \<Rightarrow> DFATransition list \<Rightarrow> jsstring list" where
  \<comment> \<open>\<open>transitionMap\<close> is a \<open>Map\<close> from keys to destinations.\<close>
  "determinismCheck_loop transitionMap errs [] = errs"
| "determinismCheck_loop transitionMap errs (t # rest) =
     (let key = transitionKey t in
      determinismCheck_loop (transitionMap(key \<mapsto> toStateId t))
        (if transitionMap key \<noteq> None then errs @ [nonDeterministicError t] else errs)
        rest)"

fun completenessCheck_symbols ::
  "DFA \<Rightarrow> DFAState \<Rightarrow> jsstring list \<Rightarrow> jsstring list \<Rightarrow> jsstring list" where
  \<comment> \<open>The inner loop, over the alphabet, for one state.\<close>
  "completenessCheck_symbols dfa st warns [] = warns"
| "completenessCheck_symbols dfa st warns (symb # rest) =
     (let hasTransition =
            list_ex (\<lambda>t. fromStateId t = id_state st \<and> symbol t = symb) (transitions dfa)
      in completenessCheck_symbols dfa st
           (if \<not> hasTransition then warns @ [incompleteWarning st symb] else warns) rest)"

fun completenessCheck_loop :: "DFA \<Rightarrow> jsstring list \<Rightarrow> DFAState list \<Rightarrow> jsstring list" where
  "completenessCheck_loop dfa warns [] = warns"
| "completenessCheck_loop dfa warns (st # rest) =
     completenessCheck_loop dfa (completenessCheck_symbols dfa st warns (alphabet dfa)) rest"

definition validateDFA :: "DFA \<Rightarrow> ValidationResult" where
  "validateDFA dfa =
     (let errs0 = [];
          warns0 = [];
          errs1 = (if length (states dfa) = 0
                   then errs0 @ [lit ''DFA must have at least one state''] else errs0);
          errs2 = (if find (\<lambda>s. id_state s = initialStateId dfa) (states dfa) = None
                   then errs1 @ [initialNotFoundError (initialStateId dfa)] else errs1);
          errs3 = acceptingCheck_loop dfa errs2 (acceptingStateIds dfa);
          warns1 = (if length (alphabet dfa) = 0
                    then warns0 @ [lit ''Alphabet is empty - DFA can only accept empty string'']
                    else warns0);
          errs4 = duplicateCheck_loop {} errs3 (states dfa);
          errs5 = referenceCheck_loop dfa errs4 (transitions dfa);
          errs6 = determinismCheck_loop Map.empty errs5 (transitions dfa);
          warns2 = completenessCheck_loop dfa warns1 (states dfa)
      in \<lparr>isValid = (length errs6 = 0), errors = errs6, warnings = warns2\<rparr>)"


section \<open>Helper functions\<close>

definition createEmptyDFA :: "jsstring \<Rightarrow> jsstring \<Rightarrow> DFA" where
  \<comment> \<open>The fresh identifier that \<open>crypto.randomUUID()\<close> returns is the first argument;
      a caller that gives no name passes the default \<open>New DFA\<close>.\<close>
  "createEmptyDFA uuid nm =
     (let initialStateId = lit ''q0'' in
      \<lparr>id_dfa = uuid, name = nm, description = Some [], alphabet = [],
       states = [\<lparr>id_state = initialStateId, label = lit ''q0'', isInitial = True,
                  isAccepting = False, x_pos = 300, y_pos = 200\<rparr>],
       transitions = [], initialStateId = initialStateId, acceptingStateIds = []\<rparr>)"

function generateStateId_loop :: "DFAState list \<Rightarrow> nat \<Rightarrow> jsstring \<Rightarrow> jsstring" where
  \<comment> \<open>The \<open>while\<close> loop of \<open>generateStateId\<close> on the variables \<open>index\<close> and \<open>id\<close>. The
      index never exceeds twice the number of states, far below \<open>2^53\<close>, so \<open>index++\<close>
      is exact.\<close>
  "generateStateId_loop existingStates index ident =
     (if list_ex (\<lambda>s. id_state s = ident) existingStates
      then generateStateId_loop existingStates (index + 1)
             (lit ''q'' @ numberToString (index + 1))
      else ident)"
  by pat_completeness auto

definition generateStateId :: "DFAState list \<Rightarrow> jsstring" where
  "generateStateId existingStates =
     (let index = length existingStates in
      generateStateId_loop existingStates index (lit ''q'' @ numberToString index))"


section \<open>Examples of the source (src/utils/dfa-examples.ts)\<close>

definition binaryEndingIn01 :: DFA where
  "binaryEndingIn01 =
     \<lparr>id_dfa = lit ''example-binary-01'', name = lit ''Binary Strings Ending in 01'',
      description =
        Some (lit ''Accepts any binary string that ends with '' @ [0x22] @ lit ''01'' @ [0x22]),
      alphabet = [lit ''0'', lit ''1''],
      states =
        [\<lparr>id_state = lit ''q0'', label = lit ''q0'', isInitial = True, isAccepting = False,
          x_pos = 150, y_pos = 200\<rparr>,
         \<lparr>id_state = lit ''q1'', label = lit ''q1'', isInitial = False, isAccepting = False,
          x_pos = 350, y_pos = 200\<rparr>,
         \<lparr>id_state = lit ''q2'', label = lit ''q2'', isInitial = False, isAccepting = True,
          x_pos = 550, y_pos = 200\<rparr>],
      transitions =
        [\<lparr>id_trans = lit ''t1'', fromStateId = lit ''q0'', toStateId = lit ''q1'', symbol = lit ''0''\<rparr>,
         \<lparr>id_trans = lit ''t2'', fromStateId = lit ''q0'', toStateId = lit ''q0'', symbol = lit ''1''\<rparr>,
         \<lparr>id_trans = lit ''t3'', fromStateId = lit ''q1'', toStateId = lit ''q1'', symbol = lit ''0''\<rparr>,
         \<lparr>id_trans = lit ''t4'', fromStateId = lit ''q1'', toStateId = lit ''q2'', symbol = lit ''1''\<rparr>,
         \<lparr>id_trans = lit ''t5'', fromStateId = lit ''q2'', toStateId = lit ''q1'', symbol = lit ''0''\<rparr>,
         \<lparr>id_trans = lit ''t6'', fromStateId = lit ''q2'', toStateId = lit ''q0'', symbol = lit ''1''\<rparr>],
      initialStateId = lit ''q0'', acceptingStateIds = [lit ''q2'']\<rparr>"

text \<open>
  Three variants of \<open>binaryEndingIn01\<close> serve as test inputs: the incomplete automaton
  of the specification's scenarios (no transition from \<open>q1\<close> on \<open>1\<close>), one with a second
  transition from \<open>q0\<close> on \<open>0\<close>, and one with a transition on a symbol that is not in
  the alphabet.
\<close>

definition incompleteBinary :: DFA where
  "incompleteBinary =
     binaryEndingIn01\<lparr>transitions :=
       filter (\<lambda>t. id_trans t \<noteq> lit ''t4'') (transitions binaryEndingIn01)\<rparr>"

definition nonDeterministicBinary :: DFA where
  "nonDeterministicBinary =
     binaryEndingIn01\<lparr>transitions := transitions binaryEndingIn01 @
       [\<lparr>id_trans = lit ''t7'', fromStateId = lit ''q0'', toStateId = lit ''q2'',
         symbol = lit ''0''\<rparr>]\<rparr>"

definition strayBinary :: DFA where
  "strayBinary =
     binaryEndingIn01\<lparr>transitions := transitions binaryEndingIn01 @
       [\<lparr>id_trans = lit ''t7'', fromStateId = lit ''q0'', toStateId = lit ''q2'',
         symbol = lit ''2''\<rparr>]\<rparr>"


section \<open>Notions of the specification\<close>

text \<open>
  The definitions of this section are not code of the repository: they say what the
  specification's words mean, so that the functions above can be compared with them.
\<close>

definition inAlphabet :: "DFA \<Rightarrow> jsstring \<Rightarrow> bool" where
  \<comment> \<open>The input has no symbol outside the alphabet.\<close>
  "inAlphabet dfa input \<longleftrightarrow>
     (\<forall>symb \<in> set (stringIterator input). symb \<in> set (alphabet dfa))"

fun firstAppearance :: "'a list \<Rightarrow> 'a list" where
  \<comment> \<open>Every element once, in the order of first appearance.\<close>
  "firstAppearance [] = []"
| "firstAppearance (x # xs) = x # firstAppearance (removeAll x xs)"

definition offendingSymbols :: "DFA \<Rightarrow> jsstring \<Rightarrow> jsstring list" where
  \<comment> \<open>The symbols of the input that are not in the alphabet, each once, in the order of
      first appearance.\<close>
  "offendingSymbols dfa input =
     firstAppearance (filter (\<lambda>symb. symb \<notin> set (alphabet dfa)) (stringIterator input))"

fun walkPath :: "DFA \<Rightarrow> jsstring \<Rightarrow> jsstring \<Rightarrow> jsstring list option" where
  \<comment> \<open>The walk from state \<open>q\<close> over a whole string: the states visited, \<open>q\<close> first, when
      every character has a defined transition, and \<open>None\<close> otherwise.\<close>
  "walkPath dfa q [] = Some [q]"
| "walkPath dfa q (c # cs) =
     (case getNextState dfa q [c] of
        None \<Rightarrow> None
      | Some q' \<Rightarrow> map_option ((#) q) (walkPath dfa q' cs))"

fun walkStates :: "DFA \<Rightarrow> jsstring \<Rightarrow> jsstring \<Rightarrow> jsstring list" where
  \<comment> \<open>The states the walk from \<open>q\<close> visits, \<open>q\<close> first, up to the end of the string or
      to the first character with no transition, whichever comes first.\<close>
  "walkStates dfa q [] = [q]"
| "walkStates dfa q (c # cs) =
     q # (case getNextState dfa q [c] of
            None \<Rightarrow> []
          | Some q' \<Rightarrow> walkStates dfa q' cs)"

definition failsAt :: "DFA \<Rightarrow> jsstring \<Rightarrow> nat \<Rightarrow> jsstring list \<Rightarrow> bool" where
  \<comment> \<open>The walk from the initial state consumes the first \<open>i\<close> characters along the states
      \<open>p\<close>, and the state it has reached has no transition on the character at index \<open>i\<close>.\<close>
  "failsAt dfa input i p \<longleftrightarrow>
     i < length input \<and> walkPath dfa (initialStateId dfa) (take i input) = Some p \<and>
     getNextState dfa (last p) [input ! i] = None"

fun firstUndefined :: "DFA \<Rightarrow> jsstring \<Rightarrow> jsstring \<Rightarrow> nat option" where
  \<comment> \<open>The number of transitions the walk from \<open>q\<close> takes before the first undefined one;
      \<open>None\<close> when every transition of the walk is defined.\<close>
  "firstUndefined dfa q [] = None"
| "firstUndefined dfa q (c # cs) =
     (case getNextState dfa q [c] of
        None \<Rightarrow> Some 0
      | Some q' \<Rightarrow> map_option Suc (firstUndefined dfa q' cs))"

definition symbolsInAlphabet :: "DFA \<Rightarrow> bool" where
  \<comment> \<open>Every transition is on a symbol of the alphabet (the validator reports the others).\<close>
  "symbolsInAlphabet dfa \<longleftrightarrow>
     (\<forall>t \<in> set (transitions dfa). symbol t \<in> set (alphabet dfa))"

definition numbered :: "jsstring \<Rightarrow> SimulationStep list \<Rightarrow> bool" where
  \<comment> \<open>The step at position \<open>k\<close> has number \<open>k\<close> and the input without its first \<open>k\<close>
      characters as remaining input.\<close>
  "numbered input steps \<longleftrightarrow>
     (\<forall>k < length steps. stepNumber (steps ! k) = k \<and>
                         remainingInput_step (steps ! k) = drop k input)"

definition digitsValue :: "jsstring \<Rightarrow> nat" where
  \<comment> \<open>The number a string of decimal digits denotes.\<close>
  "digitsValue ds = foldl (\<lambda>a c. 10 * a + (unat c - 48)) 0 ds"


section \<open>Properties of the executor\<close>

subsection \<open>Auxiliary facts\<close>

lemma getInvalidSymbols_loop_eq:
  "getInvalidSymbols_loop alph acc symbs =
     acc @ firstAppearance (filter (\<lambda>x. x \<notin> alph \<and> x \<notin> set acc) symbs)"
proof (induction symbs arbitrary: acc)
  case Nil
  show ?case by simp
next
  case (Cons a symbs)
  have f: "removeAll a (filter (\<lambda>x. x \<notin> alph \<and> x \<notin> set acc) symbs)
         = filter (\<lambda>x. x \<notin> alph \<and> x \<notin> set (acc @ [a])) symbs"
    by (induction symbs) auto
  show ?case
    using Cons.IH [of "acc @ [a]"] Cons.IH [of acc] f by auto
qed

lemma getInvalidSymbols_eq:
  "getInvalidSymbols dfa input =
     firstAppearance (filter (\<lambda>x. x \<notin> set (alphabet dfa)) (stringIterator input))"
  by (simp add: getInvalidSymbols_def Let_def getInvalidSymbols_loop_eq)

lemma firstAppearance_Nil_iff: "firstAppearance xs = [] \<longleftrightarrow> xs = []"
  by (cases xs) auto

lemma getInvalidSymbols_Nil_iff:
  "getInvalidSymbols dfa input = [] \<longleftrightarrow> inAlphabet dfa input"
  by (auto simp: getInvalidSymbols_eq firstAppearance_Nil_iff inAlphabet_def filter_empty_conv)

lemma walkPath_shape:
  "walkPath dfa q s = Some p \<Longrightarrow> p \<noteq> [] \<and> hd p = q \<and> length p = length s + 1"
  by (induction s arbitrary: q p) (auto split: option.splits)

lemma walkPath_cases:
  "(\<exists>p. walkPath dfa q s = Some p) \<or>
   (\<exists>k p. k < length s \<and> walkPath dfa q (take k s) = Some p \<and>
          getNextState dfa (last p) [s ! k] = None \<and> walkPath dfa q s = None)"
proof (induction s arbitrary: q)
  case Nil
  show ?case by simp
next
  case (Cons c cs)
  show ?case
  proof (cases "getNextState dfa q [c]")
    case None
    then have "0 < length (c # cs) \<and> walkPath dfa q (take 0 (c # cs)) = Some [q] \<and>
          getNextState dfa (last [q]) [(c # cs) ! 0] = None \<and> walkPath dfa q (c # cs) = None"
      by simp
    then show ?thesis by blast
  next
    case (Some q')
    from Cons.IH [of q'] show ?thesis
    proof
      assume "\<exists>p. walkPath dfa q' cs = Some p"
      then show ?thesis using Some by auto
    next
      assume "\<exists>k p. k < length cs \<and> walkPath dfa q' (take k cs) = Some p \<and>
          getNextState dfa (last p) [cs ! k] = None \<and> walkPath dfa q' cs = None"
      then obtain k p where k: "k < length cs" "walkPath dfa q' (take k cs) = Some p"
          "getNextState dfa (last p) [cs ! k] = None" "walkPath dfa q' cs = None"
        by blast
      from k(2) have "p \<noteq> []" using walkPath_shape by blast
      with k Some have "Suc k < length (c # cs) \<and>
          walkPath dfa q (take (Suc k) (c # cs)) = Some (q # p) \<and>
          getNextState dfa (last (q # p)) [(c # cs) ! Suc k] = None \<and>
          walkPath dfa q (c # cs) = None"
        by simp
      then show ?thesis by blast
    qed
  qed
qed

lemma processString_loop_steps:
  "walkPath dfa q (take k (drop i input)) = Some p \<Longrightarrow> i + k \<le> length input \<Longrightarrow>
   processString_loop dfa input i q pth =
     processString_loop dfa input (i + k) (last p) (pth @ tl p)"
proof (induction k arbitrary: i q pth p)
  case 0
  then show ?case by auto
next
  case (Suc k)
  from Suc.prems(2) have i: "i < length input" by simp
  then have d: "take (Suc k) (drop i input) = input ! i # take k (drop (Suc i) input)"
    by (metis Cons_nth_drop_Suc take_Suc_Cons)
  from Suc.prems(1) d obtain q' p' where
    q': "getNextState dfa q [input ! i] = Some q'"
    and p': "walkPath dfa q' (take k (drop (Suc i) input)) = Some p'"
    and p: "p = q # p'"
    by (auto split: option.splits)
  from p' have ne: "p' \<noteq> []" "hd p' = q'" using walkPath_shape by blast+
  have "processString_loop dfa input i q pth =
        processString_loop dfa input (Suc i) q' (pth @ [q'])"
    using i q' by (subst processString_loop.simps) simp
  also have "\<dots> = processString_loop dfa input (Suc i + k) (last p') ((pth @ [q']) @ tl p')"
    using Suc.IH [OF p'] Suc.prems(2) by simp
  also have "(pth @ [q']) @ tl p' = pth @ tl p"
    using ne p by (cases p') auto
  finally show ?case using p ne by simp
qed

lemma walkPath_hd: "walkPath dfa q s = Some p \<Longrightarrow> p = q # tl p"
  using walkPath_shape [of dfa q s p] by (cases p) auto

lemma processString_loop_end:
  "processString_loop dfa input (length input) q pth =
     \<lparr>accepted = (q \<in> set (acceptingStateIds dfa)), inputString = input, path = pth,
      currentState = q, remainingInput = [],
      error = (if q \<in> set (acceptingStateIds dfa) then None else Some (rejectedError q))\<rparr>"
  by (subst processString_loop.simps) (simp add: Let_def)

lemma processString_loop_stuck:
  "i < length input \<Longrightarrow> getNextState dfa q [input ! i] = None \<Longrightarrow>
   processString_loop dfa input i q pth =
     \<lparr>accepted = False, inputString = input, path = pth, currentState = q,
      remainingInput = drop i input, error = Some (noTransitionError q [input ! i])\<rparr>"
  by (subst processString_loop.simps) simp

lemma processString_complete:
  assumes v: "inAlphabet dfa input" and w: "walkPath dfa (initialStateId dfa) input = Some p"
  shows "processString dfa input =
     \<lparr>accepted = (last p \<in> set (acceptingStateIds dfa)), inputString = input, path = p,
      currentState = last p, remainingInput = [],
      error = (if last p \<in> set (acceptingStateIds dfa) then None
               else Some (rejectedError (last p)))\<rparr>"
proof -
  have inv: "getInvalidSymbols dfa input = []"
    using v by (simp add: getInvalidSymbols_Nil_iff)
  have "walkPath dfa (initialStateId dfa) (take (length input) (drop 0 input)) = Some p"
    using w by simp
  from processString_loop_steps [OF this, of "[initialStateId dfa]"]
  have "processString_loop dfa input 0 (initialStateId dfa) [initialStateId dfa] =
        processString_loop dfa input (length input) (last p) ([initialStateId dfa] @ tl p)"
    by simp
  moreover have "[initialStateId dfa] @ tl p = p"
    using walkPath_hd [OF w] by simp
  ultimately show ?thesis
    by (simp add: processString_def inv processString_loop_end)
qed

lemma processString_failsAt:
  assumes v: "inAlphabet dfa input" and f: "failsAt dfa input i p"
  shows "processString dfa input =
     \<lparr>accepted = False, inputString = input, path = p, currentState = last p,
      remainingInput = drop i input,
      error = Some (noTransitionError (last p) [input ! i])\<rparr>"
proof -
  have inv: "getInvalidSymbols dfa input = []"
    using v by (simp add: getInvalidSymbols_Nil_iff)
  from f have i: "i < length input"
    and w: "walkPath dfa (initialStateId dfa) (take i input) = Some p"
    and n: "getNextState dfa (last p) [input ! i] = None"
    by (simp_all add: failsAt_def)
  have "walkPath dfa (initialStateId dfa) (take i (drop 0 input)) = Some p"
    using w by simp
  from processString_loop_steps [OF this, of "[initialStateId dfa]"] i
  have "processString_loop dfa input 0 (initialStateId dfa) [initialStateId dfa] =
        processString_loop dfa input i (last p) ([initialStateId dfa] @ tl p)"
    by simp
  moreover have "[initialStateId dfa] @ tl p = p"
    using walkPath_hd [OF w] by simp
  ultimately show ?thesis
    by (simp add: processString_def inv processString_loop_stuck [OF i n])
qed

lemma walk_completes_or_fails:
  "(\<exists>p. walkPath dfa (initialStateId dfa) input = Some p) \<or> (\<exists>i p. failsAt dfa input i p)"
  using walkPath_cases [of dfa "initialStateId dfa" input] unfolding failsAt_def by blast

lemma walkPath_stuck:
  "walkPath dfa q (take i s) = Some p \<Longrightarrow> i < length s \<Longrightarrow>
   getNextState dfa (last p) [s ! i] = None \<Longrightarrow> walkPath dfa q s = None"
proof (induction s arbitrary: q i p)
  case Nil
  then show ?case by simp
next
  case (Cons c cs)
  show ?case
  proof (cases i)
    case 0
    with Cons.prems show ?thesis by auto
  next
    case (Suc j)
    with Cons.prems obtain q' p' where q': "getNextState dfa q [c] = Some q'"
      and p': "walkPath dfa q' (take j cs) = Some p'" and p: "p = q # p'"
      by (auto split: option.splits)
    from p' have "p' \<noteq> []" using walkPath_shape by blast
    with Cons.prems Suc p have "getNextState dfa (last p') [cs ! j] = None" "j < length cs"
      by simp_all
    with Cons.IH [OF p'] have "walkPath dfa q' cs = None" by simp
    with q' show ?thesis by simp
  qed
qed

lemma failsAt_walkPath_None:
  "failsAt dfa input i p \<Longrightarrow> walkPath dfa (initialStateId dfa) input = None"
  unfolding failsAt_def using walkPath_stuck by blast

lemma set_firstAppearance: "set (firstAppearance xs) = set xs"
  by (induction xs rule: firstAppearance.induct) auto

lemma distinct_firstAppearance: "distinct (firstAppearance xs)"
  by (induction xs rule: firstAppearance.induct) (auto simp: set_firstAppearance)


subsection \<open>The verdict and the result of processString\<close>

text \<open>
  Claim C1. \<open>processString(A, s).accepted\<close> is true if and only if \<open>s\<close> has no symbol
  outside the alphabet of \<open>A\<close>, the walk from the initial state consumes every character
  of \<open>s\<close> through defined transitions, and the last state of the walk is one of the
  accepting identifiers.
\<close>

theorem processString_accepted_iff:
  "accepted (processString A s) \<longleftrightarrow>
     inAlphabet A s \<and>
     (\<exists>p. walkPath A (initialStateId A) s = Some p \<and> last p \<in> set (acceptingStateIds A))"
proof (cases "inAlphabet A s")
  case False
  then have "getInvalidSymbols A s \<noteq> []"
    by (simp add: getInvalidSymbols_Nil_iff)
  then have "\<not> accepted (processString A s)"
    by (simp add: processString_def Let_def)
  with False show ?thesis by simp
next
  case True
  from walk_completes_or_fails [of A s] show ?thesis
  proof
    assume "\<exists>p. walkPath A (initialStateId A) s = Some p"
    then obtain p where p: "walkPath A (initialStateId A) s = Some p" ..
    show ?thesis
      using True p by (simp add: processString_complete [OF True p])
  next
    assume "\<exists>i p. failsAt A s i p"
    then obtain i p where f: "failsAt A s i p" by blast
    show ?thesis
      using True failsAt_walkPath_None [OF f] by (simp add: processString_failsAt [OF True f])
  qed
qed

theorem processString_accepted_iff_witness:
  "accepted (processString binaryEndingIn01 (lit ''01'')) \<and>
   inAlphabet binaryEndingIn01 (lit ''01'') \<and>
   walkPath binaryEndingIn01 (initialStateId binaryEndingIn01) (lit ''01'') =
     Some [lit ''q0'', lit ''q1'', lit ''q2''] \<and>
   lit ''q2'' \<in> set (acceptingStateIds binaryEndingIn01)"
proof -
  have a: "inAlphabet binaryEndingIn01 (lit ''01'')" by code_simp
  have b: "walkPath binaryEndingIn01 (initialStateId binaryEndingIn01) (lit ''01'') =
     Some [lit ''q0'', lit ''q1'', lit ''q2'']" by code_simp
  have c: "lit ''q2'' \<in> set (acceptingStateIds binaryEndingIn01)" by code_simp
  from a b c processString_accepted_iff [of binaryEndingIn01 "lit ''01''"]
  show ?thesis by simp
qed

text \<open>
  Claim C2. When the input has a symbol outside the alphabet, \<open>processString\<close> returns at
  once: not accepted, an empty path, the initial state as current state, the whole input
  as remaining input, and the message \<open>Invalid symbols in input:\<close> followed by the
  offending symbols, each once, in the order of first appearance, separated by commas.
  No transition is taken: the result is the same whatever the transitions of the
  automaton are.
\<close>

theorem processString_invalid_symbols:
  assumes "\<not> inAlphabet A s"
  shows "processString A s =
           \<lparr>accepted = False, inputString = s, path = [], currentState = initialStateId A,
            remainingInput = s,
            error = Some (lit ''Invalid symbols in input: '' @
                          join (lit '', '') (offendingSymbols A s))\<rparr> \<and>
         distinct (offendingSymbols A s) \<and>
         set (offendingSymbols A s) = {symb \<in> set (stringIterator s). symb \<notin> set (alphabet A)} \<and>
         processString (A\<lparr>transitions := ts\<rparr>) s = processString A s"
proof -
  have eq: "getInvalidSymbols B s = offendingSymbols B s" for B
    by (simp add: getInvalidSymbols_eq offendingSymbols_def)
  have ne: "getInvalidSymbols A s \<noteq> []"
    using assms by (simp add: getInvalidSymbols_Nil_iff)
  have same: "getInvalidSymbols (A\<lparr>transitions := ts\<rparr>) s = getInvalidSymbols A s"
    by (simp add: getInvalidSymbols_def)
  have 1: "processString A s =
           \<lparr>accepted = False, inputString = s, path = [], currentState = initialStateId A,
            remainingInput = s,
            error = Some (lit ''Invalid symbols in input: '' @
                          join (lit '', '') (offendingSymbols A s))\<rparr>"
    using ne by (simp add: processString_def Let_def invalidSymbolsError_def eq)
  have 2: "distinct (offendingSymbols A s)"
    by (simp add: offendingSymbols_def distinct_firstAppearance)
  have 3: "set (offendingSymbols A s) =
           {symb \<in> set (stringIterator s). symb \<notin> set (alphabet A)}"
    by (auto simp: offendingSymbols_def set_firstAppearance)
  have 4: "processString (A\<lparr>transitions := ts\<rparr>) s = processString A s"
    using ne same by (simp add: processString_def Let_def)
  from 1 2 3 4 show ?thesis by blast
qed

theorem processString_invalid_symbols_witness:
  "\<not> inAlphabet binaryEndingIn01 (lit ''a0b1a'') \<and>
   processString binaryEndingIn01 (lit ''a0b1a'') =
     \<lparr>accepted = False, inputString = lit ''a0b1a'', path = [],
      currentState = lit ''q0'', remainingInput = lit ''a0b1a'',
      error = Some (lit ''Invalid symbols in input: a, b'')\<rparr>"
proof -
  have h: "\<not> inAlphabet binaryEndingIn01 (lit ''a0b1a'')" by code_simp
  have e: "lit ''Invalid symbols in input: '' @
             join (lit '', '') (offendingSymbols binaryEndingIn01 (lit ''a0b1a'')) =
           lit ''Invalid symbols in input: a, b''" by code_simp
  have i: "initialStateId binaryEndingIn01 = lit ''q0''" by code_simp
  from processString_invalid_symbols [OF h, of "[]"] h e i show ?thesis by simp
qed



text \<open>
  Claim C4. For an input with no symbol outside the alphabet, the path that
  \<open>processString\<close> returns has \<open>s.length + 1\<close> states when the walk consumes the whole
  input, and \<open>i + 1\<close> states when the walk has no transition at index \<open>i\<close>.
\<close>

theorem processString_path_length:
  assumes "inAlphabet A s"
  shows "(walkPath A (initialStateId A) s \<noteq> None \<longrightarrow>
            length (path (processString A s)) = length s + 1) \<and>
         (failsAt A s i p \<longrightarrow> length (path (processString A s)) = i + 1)"
proof
  show "walkPath A (initialStateId A) s \<noteq> None \<longrightarrow>
          length (path (processString A s)) = length s + 1"
  proof
    assume "walkPath A (initialStateId A) s \<noteq> None"
    then obtain r where r: "walkPath A (initialStateId A) s = Some r" by blast
    then have "length r = length s + 1" using walkPath_shape by blast
    then show "length (path (processString A s)) = length s + 1"
      by (simp add: processString_complete [OF assms r])
  qed
next
  show "failsAt A s i p \<longrightarrow> length (path (processString A s)) = i + 1"
  proof
    assume f: "failsAt A s i p"
    then have "walkPath A (initialStateId A) (take i s) = Some p" and "i < length s"
      by (simp_all add: failsAt_def)
    then have "length p = i + 1" using walkPath_shape [of A _ "take i s" p] by simp
    then show "length (path (processString A s)) = i + 1"
      by (simp add: processString_failsAt [OF assms f])
  qed
qed

theorem processString_path_length_witness:
  "inAlphabet binaryEndingIn01 (lit ''1001'') \<and>
   walkPath binaryEndingIn01 (initialStateId binaryEndingIn01) (lit ''1001'') \<noteq> None \<and>
   length (path (processString binaryEndingIn01 (lit ''1001''))) = 5 \<and>
   inAlphabet incompleteBinary (lit ''1011'') \<and>
   failsAt incompleteBinary (lit ''1011'') 2 [lit ''q0'', lit ''q0'', lit ''q1''] \<and>
   length (path (processString incompleteBinary (lit ''1011''))) = 3"
proof -
  have a: "inAlphabet binaryEndingIn01 (lit ''1001'')" by code_simp
  have b: "walkPath binaryEndingIn01 (initialStateId binaryEndingIn01) (lit ''1001'') \<noteq> None"
    by code_simp
  have l: "length (lit ''1001'') = 4" by code_simp
  have c: "inAlphabet incompleteBinary (lit ''1011'')" by code_simp
  have d: "failsAt incompleteBinary (lit ''1011'') 2 [lit ''q0'', lit ''q0'', lit ''q1'']"
    by code_simp
  from processString_path_length [OF a, of 0 "[]"] processString_path_length [OF c, of 2 "[lit ''q0'', lit ''q0'', lit ''q1'']"]
    a b c d l show ?thesis by simp
qed


section \<open>Properties of getSimulationSteps\<close>

subsection \<open>Auxiliary facts\<close>

lemma steps_path_related:
  "map stateId steps = pth \<Longrightarrow>
   map stateId (getSimulationSteps_loop dfa input i q steps) =
     path (processString_loop dfa input i q pth)"
proof (induction dfa input i q pth arbitrary: steps rule: processString_loop.induct)
  case (1 dfa input i q pth)
  show ?case
  proof (cases "i < length input")
    case False
    then show ?thesis
      using "1.prems"
      by (subst getSimulationSteps_loop.simps, subst processString_loop.simps) (simp add: Let_def)
  next
    case True
    show ?thesis
    proof (cases "getNextState dfa q [input ! i]")
      case None
      then show ?thesis
        using True "1.prems"
        by (subst getSimulationSteps_loop.simps, subst processString_loop.simps) simp
    next
      case (Some q')
      have "map stateId (steps @ [\<lparr>stateId = q', symbol_step = Some [input ! i],
               remainingInput_step = drop (i + 1) input, stepNumber = i + 1\<rparr>]) = pth @ [q']"
        using "1.prems" by simp
      from "1.IH" [OF True refl Some this] show ?thesis
        using True Some
        by (subst getSimulationSteps_loop.simps, subst processString_loop.simps) simp
    qed
  qed
qed

lemma steps_length:
  "i \<le> length input \<Longrightarrow>
   length (getSimulationSteps_loop dfa input i q steps) =
     length steps + (case firstUndefined dfa q (drop i input) of
                       None \<Rightarrow> length input - i | Some k \<Rightarrow> k)"
proof (induction dfa input i q steps rule: getSimulationSteps_loop.induct)
  case (1 dfa input i q steps)
  show ?case
  proof (cases "i < length input")
    case False
    then show ?thesis
      using "1.prems" by (subst getSimulationSteps_loop.simps) simp
  next
    case True
    then have d: "drop i input = input ! i # drop (Suc i) input"
      by (simp add: Cons_nth_drop_Suc)
    show ?thesis
    proof (cases "getNextState dfa q [input ! i]")
      case None
      then show ?thesis
        using True d by (subst getSimulationSteps_loop.simps) simp
    next
      case (Some q')
      from "1.IH" [OF True refl Some] True
      have "length (getSimulationSteps_loop dfa input (i + 1) q'
              (steps @ [\<lparr>stateId = q', symbol_step = Some [input ! i],
                 remainingInput_step = drop (i + 1) input, stepNumber = i + 1\<rparr>])) =
            length steps + 1 + (case firstUndefined dfa q' (drop (Suc i) input) of
                       None \<Rightarrow> length input - Suc i | Some k \<Rightarrow> k)"
        by (simp split: option.splits)
      then show ?thesis
        using True Some d
        by (subst getSimulationSteps_loop.simps) (simp split: option.splits)
    qed
  qed
qed

lemma firstUndefined_less: "firstUndefined dfa q s = Some k \<Longrightarrow> k < length s"
  by (induction s arbitrary: q k) (auto split: option.splits)

lemma getSimulationSteps_states_eq_path:
  assumes "inAlphabet A s"
  shows "map stateId (getSimulationSteps A s) = path (processString A s)"
proof -
  from assms have "getInvalidSymbols A s = []" by (simp add: getInvalidSymbols_Nil_iff)
  then have "path (processString A s) =
      path (processString_loop A s 0 (initialStateId A) [initialStateId A])"
    by (simp add: processString_def)
  also have "\<dots> = map stateId (getSimulationSteps A s)"
    unfolding getSimulationSteps_def by (rule steps_path_related [symmetric]) simp
  finally show ?thesis by simp
qed

lemma walkStates_hd: "walkStates dfa q s = q # tl (walkStates dfa q s)"
  by (cases s) simp_all

lemma processString_loop_path:
  "i \<le> length input \<Longrightarrow>
   path (processString_loop dfa input i q pth) = pth @ tl (walkStates dfa q (drop i input))"
proof (induction dfa input i q pth rule: processString_loop.induct)
  case (1 dfa input i q pth)
  show ?case
  proof (cases "i < length input")
    case False
    with "1.prems" show ?thesis
      by (subst processString_loop.simps) (simp add: Let_def)
  next
    case True
    then have d: "drop i input = input ! i # drop (Suc i) input"
      by (simp add: Cons_nth_drop_Suc)
    show ?thesis
    proof (cases "getNextState dfa q [input ! i]")
      case None
      with True d show ?thesis
        by (subst processString_loop.simps) simp
    next
      case (Some q')
      from "1.IH" [OF True refl Some] True
      have "path (processString_loop dfa input (i + 1) q' (pth @ [q'])) =
            (pth @ [q']) @ tl (walkStates dfa q' (drop (Suc i) input))"
        by simp
      also have "\<dots> = pth @ walkStates dfa q' (drop (Suc i) input)"
        using walkStates_hd [of dfa q' "drop (Suc i) input"] by simp
      finally show ?thesis
        using True Some d by (subst processString_loop.simps) simp
    qed
  qed
qed

lemma processString_walk_states:
  "path (processString_loop A s 0 (initialStateId A) [initialStateId A]) =
     walkStates A (initialStateId A) s"
  using processString_loop_path [of 0 s A "initialStateId A" "[initialStateId A]"]
    walkStates_hd [of A "initialStateId A" s]
  by simp

lemma getSimulationSteps_walk_states:
  "map stateId (getSimulationSteps A s) = walkStates A (initialStateId A) s"
proof -
  have "map stateId (getSimulationSteps A s) =
        path (processString_loop A s 0 (initialStateId A) [initialStateId A])"
    unfolding getSimulationSteps_def by (rule steps_path_related) simp
  then show ?thesis by (simp add: processString_walk_states)
qed

lemma getNextState_Some_transition:
  "getNextState dfa q symb = Some q' \<Longrightarrow>
   \<exists>t \<in> set (transitions dfa). fromStateId t = q \<and> symbol t = symb \<and> toStateId t = q'"
  unfolding getNextState_def
  by (auto split: option.splits simp: find_Some_iff)

lemma getSimulationSteps_stuck_at_once:
  assumes "s \<noteq> []" and "getNextState A (initialStateId A) [s ! 0] = None"
  shows "getSimulationSteps A s =
           [\<lparr>stateId = initialStateId A, symbol_step = None, remainingInput_step = s,
             stepNumber = 0\<rparr>]"
  unfolding getSimulationSteps_def using assms
  by (subst getSimulationSteps_loop.simps) simp

lemma getSimulationSteps_loop_extends:
  "\<exists>ys. getSimulationSteps_loop dfa input i q steps = steps @ ys"
proof (induction dfa input i q steps rule: getSimulationSteps_loop.induct)
  case (1 dfa input i q steps)
  show ?case
  proof (cases "i < length input")
    case False
    then show ?thesis by (subst getSimulationSteps_loop.simps) simp
  next
    case True
    show ?thesis
    proof (cases "getNextState dfa q [input ! i]")
      case None
      with True show ?thesis by (subst getSimulationSteps_loop.simps) simp
    next
      case (Some q')
      from "1.IH" [OF True refl Some] True Some show ?thesis
        by (subst getSimulationSteps_loop.simps) auto
    qed
  qed
qed

lemma numbered_snoc:
  "numbered input steps \<Longrightarrow> stepNumber st = length steps \<Longrightarrow>
   remainingInput_step st = drop (length steps) input \<Longrightarrow> numbered input (steps @ [st])"
  by (auto simp: numbered_def nth_append less_Suc_eq)

lemma getSimulationSteps_loop_numbered:
  "length steps = Suc i \<Longrightarrow> numbered input steps \<Longrightarrow>
   numbered input (getSimulationSteps_loop dfa input i q steps)"
proof (induction dfa input i q steps rule: getSimulationSteps_loop.induct)
  case (1 dfa input i q steps)
  show ?case
  proof (cases "i < length input")
    case False
    then show ?thesis using "1.prems" by (subst getSimulationSteps_loop.simps) simp
  next
    case True
    show ?thesis
    proof (cases "getNextState dfa q [input ! i]")
      case None
      with True show ?thesis using "1.prems" by (subst getSimulationSteps_loop.simps) simp
    next
      case (Some q')
      have "numbered input (steps @ [\<lparr>stateId = q', symbol_step = Some [input ! i],
               remainingInput_step = drop (i + 1) input, stepNumber = i + 1\<rparr>])"
        using "1.prems" by (intro numbered_snoc) simp_all
      with "1.IH" [OF True refl Some] "1.prems"(1) True Some show ?thesis
        by (subst getSimulationSteps_loop.simps) simp
    qed
  qed
qed


subsection \<open>The trace against the path of processString\<close>

text \<open>
  Claim C5. For every automaton and every input, the state identifiers of the steps of
  \<open>getSimulationSteps\<close> are the states that the walk of \<open>processString\<close> (its loop,
  started at the initial state) computes up to its point of failure, hence a prefix of
  them; these are the states of \<open>walkStates\<close>. For an input with no symbol outside the
  alphabet they are the path that \<open>processString\<close> returns. The trace is never empty,
  and the number of steps less one is the length of the input when every transition of
  the walk is defined, and otherwise the minimum of that length and the number of
  transitions taken before the first undefined one.
\<close>

theorem getSimulationSteps_prefix_of_walk:
  "map stateId (getSimulationSteps A s) = walkStates A (initialStateId A) s \<and>
   path (processString_loop A s 0 (initialStateId A) [initialStateId A]) =
     walkStates A (initialStateId A) s \<and>
   prefix (map stateId (getSimulationSteps A s))
     (path (processString_loop A s 0 (initialStateId A) [initialStateId A])) \<and>
   (inAlphabet A s \<longrightarrow>
      map stateId (getSimulationSteps A s) = path (processString A s)) \<and>
   getSimulationSteps A s \<noteq> [] \<and>
   length (getSimulationSteps A s) - 1 =
     (case firstUndefined A (initialStateId A) s of
        None \<Rightarrow> length s | Some k \<Rightarrow> min (length s) k)"
proof (intro conjI)
  show "map stateId (getSimulationSteps A s) = walkStates A (initialStateId A) s"
    by (rule getSimulationSteps_walk_states)
  show "path (processString_loop A s 0 (initialStateId A) [initialStateId A]) =
     walkStates A (initialStateId A) s"
    by (rule processString_walk_states)
  show "prefix (map stateId (getSimulationSteps A s))
     (path (processString_loop A s 0 (initialStateId A) [initialStateId A]))"
    by (simp add: getSimulationSteps_walk_states processString_walk_states)
  show "inAlphabet A s \<longrightarrow>
      map stateId (getSimulationSteps A s) = path (processString A s)"
    by (simp add: getSimulationSteps_states_eq_path)
next
  have len: "length (getSimulationSteps A s) =
        1 + (case firstUndefined A (initialStateId A) s of None \<Rightarrow> length s | Some k \<Rightarrow> k)"
    unfolding getSimulationSteps_def using steps_length [of 0 s A "initialStateId A"]
    by (simp split: option.splits)
  then show "getSimulationSteps A s \<noteq> []"
    by auto
  from len show "length (getSimulationSteps A s) - 1 =
     (case firstUndefined A (initialStateId A) s of
        None \<Rightarrow> length s | Some k \<Rightarrow> min (length s) k)"
    using firstUndefined_less [of A "initialStateId A" s]
    by (auto split: option.splits)
qed

theorem getSimulationSteps_prefix_of_walk_witness:
  "inAlphabet incompleteBinary (lit ''1011'') \<and>
   map stateId (getSimulationSteps incompleteBinary (lit ''1011'')) =
     [lit ''q0'', lit ''q0'', lit ''q1''] \<and>
   path (processString incompleteBinary (lit ''1011'')) =
     [lit ''q0'', lit ''q0'', lit ''q1''] \<and>
   firstUndefined incompleteBinary (initialStateId incompleteBinary) (lit ''1011'') = Some 2 \<and>
   length (getSimulationSteps incompleteBinary (lit ''1011'')) - 1 = 2 \<and>
   map stateId (getSimulationSteps binaryEndingIn01 (lit ''012'')) =
     [lit ''q0'', lit ''q1'', lit ''q2''] \<and>
   path (processString_loop binaryEndingIn01 (lit ''012'') 0
          (initialStateId binaryEndingIn01) [initialStateId binaryEndingIn01]) =
     [lit ''q0'', lit ''q1'', lit ''q2'']"
proof -
  have a: "inAlphabet incompleteBinary (lit ''1011'')" by code_simp
  have b: "walkStates incompleteBinary (initialStateId incompleteBinary) (lit ''1011'') =
     [lit ''q0'', lit ''q0'', lit ''q1'']" by code_simp
  have c: "firstUndefined incompleteBinary (initialStateId incompleteBinary) (lit ''1011'') =
     Some 2" by code_simp
  have l: "length (lit ''1011'') = 4" by code_simp
  have d: "walkStates binaryEndingIn01 (initialStateId binaryEndingIn01) (lit ''012'') =
     [lit ''q0'', lit ''q1'', lit ''q2'']" by code_simp
  note t1 = getSimulationSteps_prefix_of_walk [of incompleteBinary "lit ''1011''"]
  note t2 = getSimulationSteps_prefix_of_walk [of binaryEndingIn01 "lit ''012''"]
  from t1 b have s1: "map stateId (getSimulationSteps incompleteBinary (lit ''1011'')) =
     [lit ''q0'', lit ''q0'', lit ''q1'']" by simp
  from t1 a have "map stateId (getSimulationSteps incompleteBinary (lit ''1011'')) =
     path (processString incompleteBinary (lit ''1011''))" by blast
  with s1 have p1: "path (processString incompleteBinary (lit ''1011'')) =
     [lit ''q0'', lit ''q0'', lit ''q1'']" by simp
  from t1 c l have n1: "length (getSimulationSteps incompleteBinary (lit ''1011'')) - 1 = 2"
    by simp
  from t2 d have s2: "map stateId (getSimulationSteps binaryEndingIn01 (lit ''012'')) =
     [lit ''q0'', lit ''q1'', lit ''q2'']" by simp
  from t2 d have p2: "path (processString_loop binaryEndingIn01 (lit ''012'') 0
          (initialStateId binaryEndingIn01) [initialStateId binaryEndingIn01]) =
     [lit ''q0'', lit ''q1'', lit ''q2'']" by simp
  from a s1 p1 c n1 s2 p2 show ?thesis by blast
qed

text \<open>
  On an input with a symbol outside the alphabet \<open>processString\<close> returns before its
  walk starts, so the \<open>path\<close> field of its result is empty there while the trace still
  follows the walk.
\<close>

lemma processString_path_empty_on_foreign_symbol:
  "map stateId (getSimulationSteps binaryEndingIn01 (lit ''012'')) =
     [lit ''q0'', lit ''q1'', lit ''q2''] \<and>
   path (processString binaryEndingIn01 (lit ''012'')) = []"
  by code_simp

text \<open>
  Claim C6, as stated, fails: neither \<open>getSimulationSteps\<close> nor \<open>getNextState\<close> looks
  at the alphabet, so a transition on a symbol that is not in the alphabet is taken like
  any other. The
  automaton \<open>strayBinary\<close> has such a transition from \<open>q0\<close> on \<open>2\<close>, and on the input \<open>2\<close>
  the trace has two steps.
\<close>

theorem getSimulationSteps_unknown_first_symbol_counterexample:
  "[lit ''2'' ! 0] \<notin> set (alphabet strayBinary) \<and>
   map stateId (getSimulationSteps strayBinary (lit ''2'')) = [lit ''q0'', lit ''q2'']"
  by code_simp

text \<open>
  Claim C6, amended. For an automaton whose transitions are all on symbols of the
  alphabet, and an input whose first character is not in the alphabet,
  \<open>getSimulationSteps\<close> returns exactly the initial step: no alphabet check is made, and
  the unknown symbol stops the trace because it has no transition.
\<close>

theorem getSimulationSteps_unknown_first_symbol:
  assumes "symbolsInAlphabet A"
    and "s \<noteq> []" and "[s ! 0] \<notin> set (alphabet A)"
  shows "getSimulationSteps A s =
           [\<lparr>stateId = initialStateId A, symbol_step = None, remainingInput_step = s,
             stepNumber = 0\<rparr>]"
proof -
  have "getNextState A (initialStateId A) [s ! 0] = None"
  proof (cases "getNextState A (initialStateId A) [s ! 0]")
    case None
    then show ?thesis .
  next
    case (Some q')
    then obtain t where "t \<in> set (transitions A)" "symbol t = [s ! 0]"
      using getNextState_Some_transition by blast
    with assms(1,3) show ?thesis by (auto simp: symbolsInAlphabet_def)
  qed
  with assms(2) show ?thesis by (rule getSimulationSteps_stuck_at_once)
qed

theorem getSimulationSteps_unknown_first_symbol_witness:
  "symbolsInAlphabet binaryEndingIn01 \<and> lit ''201'' \<noteq> [] \<and>
   [lit ''201'' ! 0] \<notin> set (alphabet binaryEndingIn01) \<and>
   getSimulationSteps binaryEndingIn01 (lit ''201'') =
     [\<lparr>stateId = lit ''q0'', symbol_step = None, remainingInput_step = lit ''201'',
       stepNumber = 0\<rparr>]"
proof -
  have a: "symbolsInAlphabet binaryEndingIn01" by code_simp
  have b: "lit ''201'' \<noteq> []" by code_simp
  have c: "[lit ''201'' ! 0] \<notin> set (alphabet binaryEndingIn01)" by code_simp
  have i: "initialStateId binaryEndingIn01 = lit ''q0''" by code_simp
  from getSimulationSteps_unknown_first_symbol [OF a b c] a b c i show ?thesis by simp
qed

text \<open>
  Claim C10. The step at position \<open>k\<close> of the trace of \<open>getSimulationSteps\<close> has step
  number \<open>k\<close> and the input without its first \<open>k\<close> characters as remaining input; the
  trace is never empty, and the step at position 0 is the initial state with no symbol
  and the whole input remaining.
\<close>

theorem getSimulationSteps_numbering:
  "getSimulationSteps A s \<noteq> [] \<and>
   getSimulationSteps A s ! 0 =
     \<lparr>stateId = initialStateId A, symbol_step = None, remainingInput_step = s,
      stepNumber = 0\<rparr> \<and>
   (\<forall>k < length (getSimulationSteps A s).
      stepNumber (getSimulationSteps A s ! k) = k \<and>
      remainingInput_step (getSimulationSteps A s ! k) = drop k s)"
proof (intro conjI)
  from getSimulationSteps_loop_extends
  obtain ys where ys: "getSimulationSteps A s =
      [\<lparr>stateId = initialStateId A, symbol_step = None, remainingInput_step = s,
        stepNumber = 0\<rparr>] @ ys"
    unfolding getSimulationSteps_def by blast
  then show "getSimulationSteps A s \<noteq> []"
    by simp
  from ys show "getSimulationSteps A s ! 0 =
     \<lparr>stateId = initialStateId A, symbol_step = None, remainingInput_step = s,
      stepNumber = 0\<rparr>"
    by simp
next
  have "numbered s [\<lparr>stateId = initialStateId A, symbol_step = None,
                     remainingInput_step = s, stepNumber = 0\<rparr>]"
    by (simp add: numbered_def)
  then have "numbered s (getSimulationSteps A s)"
    unfolding getSimulationSteps_def by (intro getSimulationSteps_loop_numbered) simp_all
  then show "\<forall>k < length (getSimulationSteps A s).
      stepNumber (getSimulationSteps A s ! k) = k \<and>
      remainingInput_step (getSimulationSteps A s ! k) = drop k s"
    by (simp add: numbered_def)
qed

theorem getSimulationSteps_numbering_witness:
  "2 < length (getSimulationSteps binaryEndingIn01 (lit ''1001'')) \<and>
   stepNumber (getSimulationSteps binaryEndingIn01 (lit ''1001'') ! 2) = 2 \<and>
   remainingInput_step (getSimulationSteps binaryEndingIn01 (lit ''1001'') ! 2) = lit ''01''"
proof -
  have a: "2 < length (getSimulationSteps binaryEndingIn01 (lit ''1001''))" by code_simp
  have d: "drop 2 (lit ''1001'') = lit ''01''" by code_simp
  from getSimulationSteps_numbering [of binaryEndingIn01 "lit ''1001''"] a
  have "stepNumber (getSimulationSteps binaryEndingIn01 (lit ''1001'') ! 2) = 2 \<and>
        remainingInput_step (getSimulationSteps binaryEndingIn01 (lit ''1001'') ! 2) =
          drop 2 (lit ''1001'')"
    by blast
  with a d show ?thesis by simp
qed


section \<open>Properties of the validator\<close>

lemma determinismCheck_loop_keeps:
  "set errs \<subseteq> set (determinismCheck_loop m errs ts)"
proof (induction ts arbitrary: m errs)
  case Nil
  show ?case by simp
next
  case (Cons t ts)
  have "set errs \<subseteq> set (if m (transitionKey t) \<noteq> None then errs @ [nonDeterministicError t] else errs)"
    by auto
  also have "\<dots> \<subseteq> set (determinismCheck_loop (m(transitionKey t \<mapsto> toStateId t))
      (if m (transitionKey t) \<noteq> None then errs @ [nonDeterministicError t] else errs) ts)"
    by (rule Cons.IH)
  finally show ?case by (simp add: Let_def)
qed

lemma determinismCheck_loop_seen:
  "t \<in> set ts \<Longrightarrow> m (transitionKey t) \<noteq> None \<Longrightarrow>
   nonDeterministicError t \<in> set (determinismCheck_loop m errs ts)"
proof (induction ts arbitrary: m errs)
  case Nil
  then show ?case by simp
next
  case (Cons u ts)
  show ?case
  proof (cases "t = u")
    case True
    with Cons.prems(2) have "nonDeterministicError t \<in>
        set (if m (transitionKey u) \<noteq> None then errs @ [nonDeterministicError u] else errs)"
      by simp
    then show ?thesis
      using determinismCheck_loop_keeps by (fastforce simp: Let_def)
  next
    case False
    with Cons.prems(1) have "t \<in> set ts" by simp
    moreover from Cons.prems(2) have "(m(transitionKey u \<mapsto> toStateId u)) (transitionKey t) \<noteq> None"
      by simp
    ultimately show ?thesis
      using Cons.IH by (simp add: Let_def)
  qed
qed

lemma determinismCheck_loop_duplicate:
  "t1 \<in> set ts \<Longrightarrow> t2 \<in> set ts \<Longrightarrow> t1 \<noteq> t2 \<Longrightarrow> transitionKey t1 = transitionKey t2 \<Longrightarrow>
   nonDeterministicError t1 = nonDeterministicError t2 \<Longrightarrow>
   nonDeterministicError t1 \<in> set (determinismCheck_loop m errs ts)"
proof (induction ts arbitrary: m errs)
  case Nil
  then show ?case by simp
next
  case (Cons u ts)
  consider "u = t1" | "u = t2" | "u \<noteq> t1" "u \<noteq> t2" by blast
  then show ?case
  proof cases
    case 1
    with Cons.prems have "t2 \<in> set ts"
      and "(m(transitionKey u \<mapsto> toStateId u)) (transitionKey t2) \<noteq> None"
      by auto
    then have "nonDeterministicError t2 \<in> set (determinismCheck_loop m errs (u # ts))"
      using determinismCheck_loop_seen by (simp add: Let_def)
    with Cons.prems(5) show ?thesis by simp
  next
    case 2
    with Cons.prems have "t1 \<in> set ts"
      and "(m(transitionKey u \<mapsto> toStateId u)) (transitionKey t1) \<noteq> None"
      by auto
    then show ?thesis
      using determinismCheck_loop_seen by (simp add: Let_def)
  next
    case 3
    with Cons.prems have "t1 \<in> set ts" "t2 \<in> set ts" by auto
    with Cons.prems(3,4,5) show ?thesis
      using Cons.IH by (simp add: Let_def)
  qed
qed

lemma errors_validateDFA:
  "\<exists>errs. errors (validateDFA A) = determinismCheck_loop Map.empty errs (transitions A)"
  unfolding validateDFA_def Let_def by (simp only: ValidationResult.select_convs) blast

lemma isValid_validateDFA: "isValid (validateDFA A) \<longleftrightarrow> errors (validateDFA A) = []"
  by (simp add: validateDFA_def Let_def)

lemma sublist_quoted: "sublist s (pre @ quoted s @ post)"
  unfolding quoted_def sublist_def by (metis append.assoc)

text \<open>
  Claim C7. When two transitions of the automaton share source state and symbol and have
  different destinations, the error list of \<open>validateDFA\<close> holds the entry
  \<open>Non-deterministic: multiple transitions from state '<source>' with symbol '<symbol>'\<close>,
  which mentions both the source state and the symbol, and \<open>isValid\<close> is false.
\<close>

theorem validateDFA_reports_nondeterminism:
  assumes "t1 \<in> set (transitions A)" and "t2 \<in> set (transitions A)"
    and "fromStateId t1 = fromStateId t2" and "symbol t1 = symbol t2"
    and "toStateId t1 \<noteq> toStateId t2"
  shows "nonDeterministicError t1 \<in> set (errors (validateDFA A)) \<and>
         sublist (fromStateId t1) (nonDeterministicError t1) \<and>
         sublist (symbol t1) (nonDeterministicError t1) \<and>
         \<not> isValid (validateDFA A)"
proof -
  from assms(5) have ne: "t1 \<noteq> t2" by auto
  have k: "transitionKey t1 = transitionKey t2"
    using assms(3,4) by (simp add: transitionKey_def)
  have e: "nonDeterministicError t1 = nonDeterministicError t2"
    using assms(3,4) by (simp add: nonDeterministicError_def)
  obtain errs where errs: "errors (validateDFA A) =
      determinismCheck_loop Map.empty errs (transitions A)"
    using errors_validateDFA by blast
  have 1: "nonDeterministicError t1 \<in> set (errors (validateDFA A))"
    unfolding errs by (rule determinismCheck_loop_duplicate [OF assms(1,2) ne k e])
  then have 2: "\<not> isValid (validateDFA A)"
    by (auto simp: isValid_validateDFA)
  have 3: "sublist (fromStateId t1) (nonDeterministicError t1)"
    unfolding nonDeterministicError_def by (rule sublist_quoted)
  have 4: "sublist (symbol t1) (nonDeterministicError t1)"
    unfolding nonDeterministicError_def
    using sublist_quoted [of "symbol t1" "lit ''Non-deterministic: multiple transitions from state '' @
        quoted (fromStateId t1) @ lit '' with symbol ''" "[]"]
    by simp
  from 1 2 3 4 show ?thesis by blast
qed

theorem validateDFA_reports_nondeterminism_witness:
  "hd (transitions nonDeterministicBinary) \<in> set (transitions nonDeterministicBinary) \<and>
   last (transitions nonDeterministicBinary) \<in> set (transitions nonDeterministicBinary) \<and>
   fromStateId (hd (transitions nonDeterministicBinary)) =
     fromStateId (last (transitions nonDeterministicBinary)) \<and>
   symbol (hd (transitions nonDeterministicBinary)) =
     symbol (last (transitions nonDeterministicBinary)) \<and>
   toStateId (hd (transitions nonDeterministicBinary)) \<noteq>
     toStateId (last (transitions nonDeterministicBinary)) \<and>
   nonDeterministicError (hd (transitions nonDeterministicBinary)) =
     lit ''Non-deterministic: multiple transitions from state '' @ quoted (lit ''q0'') @
     lit '' with symbol '' @ quoted (lit ''0'') \<and>
   nonDeterministicError (hd (transitions nonDeterministicBinary))
     \<in> set (errors (validateDFA nonDeterministicBinary)) \<and>
   \<not> isValid (validateDFA nonDeterministicBinary)"
proof -
  have a: "hd (transitions nonDeterministicBinary) \<in> set (transitions nonDeterministicBinary)"
    by code_simp
  have b: "last (transitions nonDeterministicBinary) \<in> set (transitions nonDeterministicBinary)"
    by code_simp
  have c: "fromStateId (hd (transitions nonDeterministicBinary)) =
     fromStateId (last (transitions nonDeterministicBinary))"
    by code_simp
  have d: "symbol (hd (transitions nonDeterministicBinary)) =
     symbol (last (transitions nonDeterministicBinary))"
    by code_simp
  have e: "toStateId (hd (transitions nonDeterministicBinary)) \<noteq>
     toStateId (last (transitions nonDeterministicBinary))"
    by code_simp
  have m: "nonDeterministicError (hd (transitions nonDeterministicBinary)) =
     lit ''Non-deterministic: multiple transitions from state '' @ quoted (lit ''q0'') @
     lit '' with symbol '' @ quoted (lit ''0'')"
    by code_simp
  from validateDFA_reports_nondeterminism [OF a b c d e] a b c d e m show ?thesis
    by simp
qed

text \<open>
  Claim C8. The report of \<open>validateDFA\<close> has \<open>isValid\<close> true exactly when its error list
  is empty; the warning list plays no part. The incomplete automaton of the
  specification and the empty automaton of \<open>createEmptyDFA\<close> (empty alphabet) are valid
  and carry a warning each.
\<close>

theorem validateDFA_isValid_iff:
  "isValid (validateDFA A) \<longleftrightarrow> errors (validateDFA A) = []"
  by (simp add: validateDFA_def Let_def)

theorem validateDFA_isValid_iff_witness:
  "isValid (validateDFA incompleteBinary) \<and>
   errors (validateDFA incompleteBinary) = [] \<and>
   warnings (validateDFA incompleteBinary) =
     [lit ''Incomplete: state '' @ quoted (lit ''q1'') @
      lit '' has no transition for symbol '' @ quoted (lit ''1'')] \<and>
   isValid (validateDFA (createEmptyDFA [] (lit ''New DFA''))) \<and>
   errors (validateDFA (createEmptyDFA [] (lit ''New DFA''))) = [] \<and>
   warnings (validateDFA (createEmptyDFA [] (lit ''New DFA''))) =
     [lit ''Alphabet is empty - DFA can only accept empty string'']"
proof -
  have a: "errors (validateDFA incompleteBinary) = []" by code_simp
  have b: "warnings (validateDFA incompleteBinary) =
     [lit ''Incomplete: state '' @ quoted (lit ''q1'') @
      lit '' has no transition for symbol '' @ quoted (lit ''1'')]" by code_simp
  have c: "errors (validateDFA (createEmptyDFA [] (lit ''New DFA''))) = []" by code_simp
  have d: "warnings (validateDFA (createEmptyDFA [] (lit ''New DFA''))) =
     [lit ''Alphabet is empty - DFA can only accept empty string'']" by code_simp
  from validateDFA_isValid_iff [of incompleteBinary]
    validateDFA_isValid_iff [of "createEmptyDFA [] (lit ''New DFA'')"] a b c d
  show ?thesis by simp
qed


section \<open>Identifier generation\<close>

text \<open>
  Decimal numerals are injective, so the identifiers \<open>q<N>\<close> of different numbers differ,
  and the loop of \<open>generateStateId\<close> meets only finitely many used identifiers.
\<close>

lemma unat_digitChar: "d < 10 \<Longrightarrow> unat (digitChar d) = 48 + d"
  by (simp only: digitChar_def unat_of_nat) simp

lemma digitsValue_snoc: "digitsValue (ds @ [c]) = 10 * digitsValue ds + (unat c - 48)"
  by (simp add: digitsValue_def)

lemma digitsValue_numberToString: "digitsValue (numberToString n) = n"
proof (induction n rule: numberToString.induct)
  case (1 n)
  show ?case
  proof (cases "n < 10")
    case True
    then show ?thesis
      by (subst numberToString.simps) (simp add: digitsValue_def unat_digitChar)
  next
    case False
    with 1 have "digitsValue (numberToString (n div 10)) = n div 10" by simp
    with False show ?thesis
      by (subst numberToString.simps) (simp add: digitsValue_snoc unat_digitChar)
  qed
qed

lemma numberToString_inject: "numberToString m = numberToString n \<Longrightarrow> m = n"
  by (metis digitsValue_numberToString)

lemma finite_used_indices:
  "finite {k. i < k \<and> lit ''q'' @ numberToString k \<in> id_state ` set sts}"
proof -
  have "inj (\<lambda>k. lit ''q'' @ numberToString k)"
    by (rule injI) (simp add: numberToString_inject)
  then have "finite ((\<lambda>k. lit ''q'' @ numberToString k) -` (id_state ` set sts))"
    by (simp add: finite_vimageI)
  then show ?thesis
    by (rule rev_finite_subset) auto
qed

lemma used_indices_step:
  "{k. i < k \<and> lit ''q'' @ numberToString k \<in> id_state ` set sts} =
     {k. Suc i < k \<and> lit ''q'' @ numberToString k \<in> id_state ` set sts} \<union>
     (if lit ''q'' @ numberToString (Suc i) \<in> id_state ` set sts then {Suc i} else {})"
  by (auto intro!: Suc_lessI)

termination generateStateId_loop
proof (relation "measure (\<lambda>(sts, index, ident).
          card {k. index < k \<and> lit ''q'' @ numberToString k \<in> id_state ` set sts} +
          (if ident \<in> id_state ` set sts then 1 else 0))")
  show "wf (measure (\<lambda>(sts, index, ident).
          card {k. index < k \<and> lit ''q'' @ numberToString k \<in> id_state ` set sts} +
          (if ident \<in> id_state ` set sts then 1 else 0)))"
    by simp
next
  fix existingStates :: "DFAState list" and index :: nat and ident :: jsstring
  assume "list_ex (\<lambda>s. id_state s = ident) existingStates"
  then have used: "ident \<in> id_state ` set existingStates"
    by (auto simp: list_ex_iff)
  have "card {k. index < k \<and> lit ''q'' @ numberToString k \<in> id_state ` set existingStates} =
        card {k. Suc index < k \<and> lit ''q'' @ numberToString k \<in> id_state ` set existingStates} +
        (if lit ''q'' @ numberToString (Suc index) \<in> id_state ` set existingStates then 1 else 0)"
    by (subst used_indices_step) (simp add: finite_used_indices)
  with used show "((existingStates, index + 1, lit ''q'' @ numberToString (index + 1)),
         (existingStates, index, ident)) \<in> measure (\<lambda>(sts, index, ident).
          card {k. index < k \<and> lit ''q'' @ numberToString k \<in> id_state ` set sts} +
          (if ident \<in> id_state ` set sts then 1 else 0))"
    by simp
qed

declare generateStateId_loop.simps [simp del]

lemma generateStateId_loop_spec:
  "ident = lit ''q'' @ numberToString index \<Longrightarrow>
   \<exists>N. index \<le> N \<and> generateStateId_loop sts index ident = lit ''q'' @ numberToString N \<and>
       lit ''q'' @ numberToString N \<notin> id_state ` set sts \<and>
       (\<forall>k. index \<le> k \<and> k < N \<longrightarrow> lit ''q'' @ numberToString k \<in> id_state ` set sts)"
proof (induction sts index ident rule: generateStateId_loop.induct)
  case (1 sts index ident)
  show ?case
  proof (cases "list_ex (\<lambda>s. id_state s = ident) sts")
    case False
    then have "generateStateId_loop sts index ident = ident"
      by (subst generateStateId_loop.simps) simp
    moreover from False have "ident \<notin> id_state ` set sts"
      by (auto simp: list_ex_iff)
    ultimately have "index \<le> index \<and>
        generateStateId_loop sts index ident = lit ''q'' @ numberToString index \<and>
        lit ''q'' @ numberToString index \<notin> id_state ` set sts \<and>
        (\<forall>k. index \<le> k \<and> k < index \<longrightarrow> lit ''q'' @ numberToString k \<in> id_state ` set sts)"
      using "1.prems" by auto
    then show ?thesis by blast
  next
    case True
    then obtain st where "st \<in> set sts" "id_state st = ident"
      by (auto simp: list_ex_iff)
    then have "ident \<in> id_state ` set sts" by blast
    then have used: "lit ''q'' @ numberToString index \<in> id_state ` set sts"
      using "1.prems" by simp
    from "1.IH" [OF True] obtain N where N: "index + 1 \<le> N"
      "generateStateId_loop sts (index + 1) (lit ''q'' @ numberToString (index + 1)) =
         lit ''q'' @ numberToString N"
      "lit ''q'' @ numberToString N \<notin> id_state ` set sts"
      "\<forall>k. index + 1 \<le> k \<and> k < N \<longrightarrow> lit ''q'' @ numberToString k \<in> id_state ` set sts"
      by blast
    have "generateStateId_loop sts index ident = lit ''q'' @ numberToString N"
      using True N(2) by (subst generateStateId_loop.simps) simp
    moreover have "\<forall>k. index \<le> k \<and> k < N \<longrightarrow> lit ''q'' @ numberToString k \<in> id_state ` set sts"
    proof (intro allI impI)
      fix k assume "index \<le> k \<and> k < N"
      then have "k = index \<or> (index + 1 \<le> k \<and> k < N)" by arith
      then show "lit ''q'' @ numberToString k \<in> id_state ` set sts"
        using used N(4) by blast
    qed
    ultimately have "index \<le> N \<and>
        generateStateId_loop sts index ident = lit ''q'' @ numberToString N \<and>
        lit ''q'' @ numberToString N \<notin> id_state ` set sts \<and>
        (\<forall>k. index \<le> k \<and> k < N \<longrightarrow> lit ''q'' @ numberToString k \<in> id_state ` set sts)"
      using N(1,3) by simp
    then show ?thesis by blast
  qed
qed

lemma used_indices_bound:
  assumes "\<forall>k. n \<le> k \<and> k < N \<longrightarrow> lit ''q'' @ numberToString k \<in> id_state ` set sts"
  shows "N - n \<le> length sts"
proof -
  have inj: "inj_on (\<lambda>k. lit ''q'' @ numberToString k) {n..<N}"
    by (rule inj_onI) (simp add: numberToString_inject)
  have "(\<lambda>k. lit ''q'' @ numberToString k) ` {n..<N} \<subseteq> id_state ` set sts"
    using assms by auto
  then have "card ((\<lambda>k. lit ''q'' @ numberToString k) ` {n..<N}) \<le> card (id_state ` set sts)"
    by (simp add: card_mono)
  also have "\<dots> \<le> card (set sts)" by (simp add: card_image_le)
  also have "\<dots> \<le> length sts" by (rule card_length)
  finally show ?thesis using inj by (simp add: card_image)
qed

text \<open>
  Claim C9. \<open>generateStateId\<close> returns \<open>q<N>\<close> for the least \<open>N\<close>, counted from the
  number of existing states, whose identifier \<open>q<N>\<close> no existing state has; so the
  identifier it returns is the identifier of no existing state. The loop ends with
  \<open>N\<close> at most twice the number of states.
\<close>

theorem generateStateId_fresh:
  "\<exists>N. generateStateId sts = lit ''q'' @ numberToString N \<and>
       length sts \<le> N \<and> N \<le> 2 * length sts \<and>
       (\<forall>k. length sts \<le> k \<and> k < N \<longrightarrow> lit ''q'' @ numberToString k \<in> id_state ` set sts) \<and>
       generateStateId sts \<notin> id_state ` set sts"
proof -
  from generateStateId_loop_spec [of "lit ''q'' @ numberToString (length sts)" "length sts" sts]
  obtain N where N: "length sts \<le> N"
    "generateStateId sts = lit ''q'' @ numberToString N"
    "lit ''q'' @ numberToString N \<notin> id_state ` set sts"
    "\<forall>k. length sts \<le> k \<and> k < N \<longrightarrow> lit ''q'' @ numberToString k \<in> id_state ` set sts"
    unfolding generateStateId_def Let_def by blast
  from used_indices_bound [OF N(4)] N(1) have "N \<le> 2 * length sts" by simp
  with N show ?thesis by auto
qed

theorem generateStateId_fresh_witness:
  "generateStateId (tl (states binaryEndingIn01)) = lit ''q3'' \<and>
   lit ''q2'' \<in> id_state ` set (tl (states binaryEndingIn01)) \<and>
   lit ''q3'' \<notin> id_state ` set (tl (states binaryEndingIn01))"
proof -
  have e: "generateStateId (tl (states binaryEndingIn01)) = lit ''q3''" by code_simp
  have m: "lit ''q2'' \<in> id_state ` set (tl (states binaryEndingIn01))" by code_simp
  from generateStateId_fresh [of "tl (states binaryEndingIn01)"]
  have "generateStateId (tl (states binaryEndingIn01)) \<notin>
          id_state ` set (tl (states binaryEndingIn01))"
    by blast
  with e m show ?thesis by simp
qed

end
